theory Spec2Isabelle
  imports Main
begin

section \<open>Strings of the source language\<close>

text \<open>
  The program is Python 3: a \<open>str\<close> is a sequence of Unicode code points and \<open>len\<close>
  counts code points. A character is modelled by its code point, a string by the list of
  its code points.
\<close>

type_synonym uchar = nat
type_synonym ustring = "uchar list"

text \<open>
  \<open>str.strip()\<close> and \<open>str.split()\<close> without arguments work on the characters for
  which \<open>str.isspace()\<close> holds: TAB..CR, FS..US, SPACE, NEL, NBSP and the Unicode
  space separators U+1680, U+2000..U+200A, U+2028, U+2029, U+202F, U+205F, U+3000.
\<close>

definition py_isspace :: "uchar \<Rightarrow> bool" where
  "py_isspace c \<longleftrightarrow>
     (0x09 \<le> c \<and> c \<le> 0x0D) \<or> (0x1C \<le> c \<and> c \<le> 0x20) \<or> c = 0x85 \<or> c = 0xA0 \<or>
     c = 0x1680 \<or> (0x2000 \<le> c \<and> c \<le> 0x200A) \<or> c = 0x2028 \<or> c = 0x2029 \<or>
     c = 0x202F \<or> c = 0x205F \<or> c = 0x3000"

text \<open>\<open>s.strip()\<close>: the leading run of whitespace goes, then the trailing one.\<close>

definition py_strip :: "ustring \<Rightarrow> ustring" where
  "py_strip s = rev (dropWhile py_isspace (rev (dropWhile py_isspace s)))"

text \<open>
  \<open>s.split()\<close>: the maximal runs of non-whitespace characters, in order; never an empty
  word. The first argument is the word being read.
\<close>

fun split_words :: "ustring \<Rightarrow> ustring \<Rightarrow> ustring list" where
  "split_words cur [] = (if cur = [] then [] else [cur])"
| "split_words cur (c # cs) =
     (if py_isspace c
      then (if cur = [] then split_words [] cs else cur # split_words [] cs)
      else split_words (cur @ [c]) cs)"

definition py_split :: "ustring \<Rightarrow> ustring list" where
  "py_split s = split_words [] s"

text \<open>\<open>sep.join(ws)\<close>.\<close>

fun py_join :: "ustring \<Rightarrow> ustring list \<Rightarrow> ustring" where
  "py_join sep [] = []"
| "py_join sep [w] = w"
| "py_join sep (w # v # ws) = w @ sep @ py_join sep (v # ws)"

text \<open>\<open>s.startswith(p)\<close>, and \<open>sub in s\<close>: \<open>sub\<close> occurs in \<open>s\<close> as a contiguous run.\<close>

fun py_startswith :: "ustring \<Rightarrow> ustring \<Rightarrow> bool" where
  "py_startswith s [] = True"
| "py_startswith [] (p # ps) = False"
| "py_startswith (c # cs) (p # ps) = (c = p \<and> py_startswith cs ps)"

fun py_in :: "ustring \<Rightarrow> ustring \<Rightarrow> bool" where
  "py_in sub [] = (sub = [])"
| "py_in sub (c # cs) = (py_startswith (c # cs) sub \<or> py_in sub cs)"

text \<open>\<open>s.endswith(suf)\<close>, and \<open>s.endswith((suf1, suf2, ...))\<close> with a tuple.\<close>

definition py_endswith :: "ustring \<Rightarrow> ustring \<Rightarrow> bool" where
  "py_endswith s suf \<longleftrightarrow> length suf \<le> length s \<and> drop (length s - length suf) s = suf"

definition py_endswith_any :: "ustring \<Rightarrow> ustring list \<Rightarrow> bool" where
  "py_endswith_any s sufs = list_ex (py_endswith s) sufs"

text \<open>\<open>ws[-n:]\<close>: the last \<open>n\<close> elements, the whole list when it is shorter.\<close>

definition py_last_n :: "nat \<Rightarrow> 'a list \<Rightarrow> 'a list" where
  "py_last_n n ws = drop (length ws - n) ws"

section \<open>Settings\<close>

definition N_SUGGESTIONS :: nat where
  "N_SUGGESTIONS = 4"

section \<open>Cleaning a candidate word\<close>

text \<open>
  The character classes of the three regular expressions of \<open>clean_suggestion\<close>:
  \<open>[U+0900-U+097F a-z A-Z 0-9]\<close>, the same with the danda U+0964 added, and
  \<open>[U+0900-U+097F a-z A-Z]\<close>.
\<close>

definition in_devanagari_block :: "uchar \<Rightarrow> bool" where
  "in_devanagari_block c \<longleftrightarrow> 0x900 \<le> c \<and> c \<le> 0x97F"

definition latin_letter :: "uchar \<Rightarrow> bool" where
  "latin_letter c \<longleftrightarrow> (0x61 \<le> c \<and> c \<le> 0x7A) \<or> (0x41 \<le> c \<and> c \<le> 0x5A)"

definition ascii_digit :: "uchar \<Rightarrow> bool" where
  "ascii_digit c \<longleftrightarrow> 0x30 \<le> c \<and> c \<le> 0x39"

definition lead_class :: "uchar \<Rightarrow> bool" where
  "lead_class c \<longleftrightarrow> in_devanagari_block c \<or> latin_letter c \<or> ascii_digit c"

definition trail_class :: "uchar \<Rightarrow> bool" where
  "trail_class c \<longleftrightarrow> in_devanagari_block c \<or> latin_letter c \<or> ascii_digit c \<or> c = 0x964"

definition letter_class :: "uchar \<Rightarrow> bool" where
  "letter_class c \<longleftrightarrow> in_devanagari_block c \<or> latin_letter c"

text \<open>
  \<open>re.sub(r'^[^...]+|[^...]+$', '', s)\<close>: the scan finds, left to right, the leading
  run of characters outside the first class (first alternative, anchored at the start,
  greedy) and then the trailing run of characters outside the second class (second
  alternative, anchored at the end), and deletes both. A final newline belongs to the
  trailing run, so \<open>$\<close> matching before it changes nothing.
\<close>

definition re_sub_edges :: "ustring \<Rightarrow> ustring" where
  "re_sub_edges s =
     rev (dropWhile (\<lambda>c. \<not> trail_class c) (rev (dropWhile (\<lambda>c. \<not> lead_class c) s)))"

definition clean_suggestion :: "ustring \<Rightarrow> ustring" where
  "clean_suggestion text =
     (if text = [] then []
      else let cleaned = re_sub_edges (py_strip text) in
        if \<not> list_ex letter_class cleaned then []
        else if length cleaned < 2 then []
        else cleaned)"

section \<open>Extracting candidates from one continuation\<close>

text \<open>The loop over \<open>words[:6]\<close>; the first argument is the list \<open>suggestions\<close>.\<close>

fun extract_loop :: "ustring list \<Rightarrow> ustring list \<Rightarrow> ustring list" where
  "extract_loop suggestions [] = suggestions"
| "extract_loop suggestions (word # words) =
     (let cleaned = clean_suggestion word in
      if cleaned \<noteq> [] \<and> cleaned \<notin> set suggestions
      then extract_loop (suggestions @ [cleaned]) words
      else extract_loop suggestions words)"

definition extract_suggestions :: "ustring \<Rightarrow> ustring \<Rightarrow> ustring list" where
  "extract_suggestions generated_text original_text =
     (if generated_text = [] \<or> length generated_text \<le> length original_text then []
      else let new_part = py_strip (drop (length original_text) generated_text) in
        if new_part = [] then []
        else take N_SUGGESTIONS (extract_loop [] (take 6 (py_split new_part))))"

section \<open>The model service and the prediction pipeline\<close>

text \<open>
  The text-generation pipeline \<open>generator\<close> is an external collaborator: called with the
  context it either raises (\<open>Inl\<close> the exception) or returns the generated texts of its
  results, in order. The global \<open>generator\<close> is \<open>None\<close> when loading the model failed.
\<close>

type_synonym 'e model = "ustring \<Rightarrow> 'e + ustring list"

text \<open>
  What one run does: the list it returns, the exceptions it reported with \<open>st.error\<close>,
  and the contexts it passed to the model, both in the order of the calls.
\<close>

record 'e outcome =
  returned :: "ustring list"
  st_errors :: "'e list"
  model_calls :: "ustring list"

definition nothing :: "'e outcome" where
  "nothing = \<lparr>returned = [], st_errors = [], model_calls = []\<rparr>"

text \<open>The loop over \<open>results\<close>; the first argument is \<open>all_suggestions\<close>.\<close>

fun collect_loop :: "ustring list \<Rightarrow> ustring \<Rightarrow> ustring list \<Rightarrow> ustring list" where
  "collect_loop all_suggestions context [] = all_suggestions"
| "collect_loop all_suggestions context (result # results) =
     collect_loop (all_suggestions @ extract_suggestions result context) context results"

text \<open>
  The loop over \<open>all_suggestions\<close>, with the list \<open>unique_suggestions\<close> and the set
  \<open>seen\<close>. \<open>str.lower\<close> belongs to the runtime and is a parameter.
\<close>

fun filter_loop ::
  "(ustring \<Rightarrow> ustring) \<Rightarrow> ustring \<Rightarrow> ustring list \<Rightarrow> ustring set \<Rightarrow> ustring list \<Rightarrow> ustring list"
where
  "filter_loop lower text unique_suggestions seen [] = unique_suggestions"
| "filter_loop lower text unique_suggestions seen (suggestion # rest) =
     (if suggestion \<noteq> [] \<and> lower suggestion \<notin> seen \<and> \<not> py_in suggestion text \<and>
         2 \<le> length suggestion
      then filter_loop lower text (unique_suggestions @ [suggestion])
             (insert (lower suggestion) seen) rest
      else filter_loop lower text unique_suggestions seen rest)"

definition generate_predictions ::
  "(ustring \<Rightarrow> ustring) \<Rightarrow> 'e model option \<Rightarrow> ustring \<Rightarrow> 'e outcome"
where
  "generate_predictions lower generator text =
     (case generator of
        None \<Rightarrow> nothing
      | Some g \<Rightarrow>
          if text = [] then nothing
          else
            let words = py_split (py_strip text);
                context = (if 6 < length words then py_join [0x20] (py_last_n 6 words)
                           else py_strip text)
            in case g context of
                 Inl e \<Rightarrow> \<lparr>returned = [], st_errors = [e], model_calls = [context]\<rparr>
               | Inr results \<Rightarrow>
                   \<lparr>returned = take N_SUGGESTIONS
                       (filter_loop lower text [] {} (collect_loop [] context results)),
                    st_errors = [], model_calls = [context]\<rparr>)"

text \<open>The sentence endings after which nothing is predicted: danda, full stop, !, ?.\<close>

definition should_predict :: "ustring \<Rightarrow> bool" where
  "should_predict text =
     (if text = [] \<or> length (py_strip text) < 1 then False
      else if py_endswith_any (py_strip text) [[0x964], [0x2E], [0x21], [0x3F]] then False
      else True)"

text \<open>
  The call site: suggestions are generated when \<open>should_predict\<close> holds and the model
  was loaded; otherwise nothing is generated and nothing is shown.
\<close>

definition predict ::
  "(ustring \<Rightarrow> ustring) \<Rightarrow> 'e model option \<Rightarrow> ustring \<Rightarrow> 'e outcome"
where
  "predict lower generator user_text =
     (if should_predict user_text \<and> generator \<noteq> None
      then generate_predictions lower generator user_text
      else nothing)"

text \<open>The handler of a suggestion button: the new value of \<open>user_text\<close>.\<close>

definition accept :: "ustring \<Rightarrow> ustring \<Rightarrow> ustring" where
  "accept user_text suggestion =
     (let current_text = py_strip user_text in
      if current_text = [] then suggestion
      else if py_endswith current_text [0x20] then current_text @ suggestion
      else current_text @ [0x20] @ suggestion)"

text \<open>
  \<open>str.lower\<close> on strings over ASCII and the Devanagari block (which has no case); used
  only to evaluate the pipeline at concrete inputs over these characters.
\<close>

definition lower_ascii :: "ustring \<Rightarrow> ustring" where
  "lower_ascii s = map (\<lambda>c. if 0x41 \<le> c \<and> c \<le> 0x5A then c + 0x20 else c) s"

section \<open>Stand-ins for the model service\<close>

text \<open>
  Two model services used to run the pipeline at concrete inputs: one answers with the
  context followed by each of the given tails (what the text-generation pipeline does
  with \<open>return_full_text=True\<close>), the other raises on every call.
\<close>

definition echo_model :: "ustring list \<Rightarrow> 'e model" where
  "echo_model tails context = Inr (map (\<lambda>t. context @ t) tails)"

definition failing_model :: "'e \<Rightarrow> 'e model" where
  "failing_model e context = Inl e"

section \<open>The candidate list as the specification words it\<close>

text \<open>
  The specification describes the list handed to the final filter in its own words:
  the cleaned tokens of every continuation (at most the first 6 whitespace tokens of
  the trimmed text after the context, discarded tokens left out), collected in order,
  a token being kept only if no token equal to it up to case was seen before in the
  pass. These definitions follow that wording and are compared with \<open>collect_loop\<close>.
\<close>

definition spec_cleaned_tokens :: "ustring \<Rightarrow> ustring \<Rightarrow> ustring list" where
  "spec_cleaned_tokens context continuation =
     (if length continuation \<le> length context then []
      else filter (\<lambda>t. t \<noteq> [])
             (map clean_suggestion
               (take 6 (py_split (py_strip (drop (length context) continuation))))))"

fun spec_unseen :: "(ustring \<Rightarrow> ustring) \<Rightarrow> ustring set \<Rightarrow> ustring list \<Rightarrow> ustring list" where
  "spec_unseen lower seen [] = []"
| "spec_unseen lower seen (t # ts) =
     (if lower t \<in> seen then spec_unseen lower seen ts
      else t # spec_unseen lower (insert (lower t) seen) ts)"

definition spec_candidates ::
  "(ustring \<Rightarrow> ustring) \<Rightarrow> ustring \<Rightarrow> ustring list \<Rightarrow> ustring list"
where
  "spec_candidates lower context continuations =
     spec_unseen lower {} (concat (map (spec_cleaned_tokens context) continuations))"

text \<open>The elements of a list in the order of their first occurrence, each once.\<close>

definition first_occurrences :: "'a list \<Rightarrow> 'a list" where
  "first_occurrences xs = rev (remdups (rev xs))"

section \<open>Evaluation at concrete inputs\<close>

lemmas char_classes = py_isspace_def lead_class_def trail_class_def letter_class_def
  in_devanagari_block_def latin_letter_def ascii_digit_def

lemmas pipeline_defs = predict_def should_predict_def generate_predictions_def
  extract_suggestions_def clean_suggestion_def re_sub_edges_def py_strip_def py_split_def
  py_endswith_any_def py_endswith_def py_last_n_def N_SUGGESTIONS_def lower_ascii_def
  echo_model_def failing_model_def nothing_def Let_def

section \<open>Properties of cleaning\<close>

lemma trail_class_eq_lead_class: "trail_class c = lead_class c"
  by (auto simp: trail_class_def lead_class_def in_devanagari_block_def)

lemma isspace_not_lead_class: "py_isspace c \<Longrightarrow> \<not> lead_class c"
  by (auto simp: py_isspace_def lead_class_def in_devanagari_block_def latin_letter_def
      ascii_digit_def)

lemma both_ends_stripped:
  assumes "rev (dropWhile Q (rev (dropWhile P s))) \<noteq> []"
  shows "\<not> P (hd (rev (dropWhile Q (rev (dropWhile P s)))))"
    and "\<not> Q (last (rev (dropWhile Q (rev (dropWhile P s)))))"
proof -
  let ?d = "dropWhile P s"
  let ?e = "dropWhile Q (rev ?d)"
  from assms have e: "?e \<noteq> []" by simp
  have d: "?d \<noteq> []"
  proof
    assume "?d = []"
    then have "?e = dropWhile Q (rev [])" by (rule arg_cong)
    with e show False by simp
  qed
  have "\<not> Q (hd ?e)" using e by (rule hd_dropWhile)
  then show "\<not> Q (last (rev ?e))" using e by (simp add: last_rev)
  have "rev ?d = takeWhile Q (rev ?d) @ ?e" by simp
  then have "?d = rev ?e @ rev (takeWhile Q (rev ?d))"
    by (metis rev_append rev_rev_ident)
  then have "hd ?d = hd (rev ?e)" using e by (metis hd_append2 rev_is_Nil_conv)
  moreover have "\<not> P (hd ?d)" using d by (rule hd_dropWhile)
  ultimately show "\<not> P (hd (rev ?e))" by simp
qed

lemma strip_fixed:
  assumes "s \<noteq> []" "\<not> P (hd s)" "\<not> Q (last s)"
  shows "rev (dropWhile Q (rev (dropWhile P s))) = s"
proof -
  have "dropWhile P s = s" using assms by (simp add: dropWhile_eq_self_iff)
  moreover have "dropWhile Q (rev s) = rev s"
    using assms by (simp add: dropWhile_eq_self_iff hd_rev)
  ultimately show ?thesis by simp
qed

lemma re_sub_edges_ends:
  assumes "re_sub_edges s \<noteq> []"
  shows "lead_class (hd (re_sub_edges s))" and "lead_class (last (re_sub_edges s))"
  using both_ends_stripped [of "\<lambda>c. \<not> trail_class c" "\<lambda>c. \<not> lead_class c" s] assms
  by (simp_all add: re_sub_edges_def trail_class_eq_lead_class)

lemma clean_fixed:
  assumes "r \<noteq> []" "lead_class (hd r)" "lead_class (last r)"
  shows "py_strip r = r" and "re_sub_edges r = r"
proof -
  have "\<not> py_isspace (hd r)" "\<not> py_isspace (last r)"
    using assms isspace_not_lead_class by blast+
  then show "py_strip r = r"
    unfolding py_strip_def using assms(1) by (intro strip_fixed) simp_all
  show "re_sub_edges r = r"
    unfolding re_sub_edges_def using assms
    by (intro strip_fixed) (simp_all add: trail_class_eq_lead_class)
qed

text \<open>
  C10. \<open>clean_suggestion\<close> is idempotent: cleaning the result of a cleaning changes
  nothing, whether the token survived or was discarded (result empty).
\<close>

theorem clean_suggestion_idempotent:
  "clean_suggestion (clean_suggestion t) = clean_suggestion t"
proof (cases "clean_suggestion t = []")
  case True
  then show ?thesis by (simp add: clean_suggestion_def)
next
  case False
  let ?r = "re_sub_edges (py_strip t)"
  from False have r: "clean_suggestion t = ?r" and ne: "?r \<noteq> []"
    and ok: "list_ex letter_class ?r" "\<not> length ?r < 2"
    by (auto simp: clean_suggestion_def Let_def split: if_splits)
  have "py_strip ?r = ?r" "re_sub_edges ?r = ?r"
    using clean_fixed [OF ne] re_sub_edges_ends [OF ne] by simp_all
  then have "clean_suggestion ?r = ?r"
    using ne ok by (simp add: clean_suggestion_def)
  then show ?thesis by (simp add: r)
qed

theorem clean_suggestion_idempotent_witness:
  "clean_suggestion [0x2E, 0x2E, 0x2E, 0x905, 0x91A, 0x94D, 0x91B, 0x93E, 0x2C] =
     [0x905, 0x91A, 0x94D, 0x91B, 0x93E] \<and>
   clean_suggestion (clean_suggestion [0x2E, 0x2E, 0x2E, 0x905, 0x91A, 0x94D, 0x91B, 0x93E, 0x2C]) =
     [0x905, 0x91A, 0x94D, 0x91B, 0x93E]"
proof -
  have h: "clean_suggestion [0x2E, 0x2E, 0x2E, 0x905, 0x91A, 0x94D, 0x91B, 0x93E, 0x2C] =
     [0x905, 0x91A, 0x94D, 0x91B, 0x93E]"
    by (simp add: pipeline_defs char_classes)
  show ?thesis
    using h clean_suggestion_idempotent [of "[0x2E, 0x2E, 0x2E, 0x905, 0x91A, 0x94D, 0x91B, 0x93E, 0x2C]"]
    by (simp only: simp_thms)
qed

section \<open>The final filter\<close>

lemma py_startswith_iff: "py_startswith s p \<longleftrightarrow> (\<exists>q. s = p @ q)"
  by (induction s p rule: py_startswith.induct) auto

lemma py_in_iff: "py_in sub s \<longleftrightarrow> (\<exists>p q. s = p @ sub @ q)"
proof (induction s)
  case Nil
  then show ?case by simp
next
  case (Cons c cs)
  show ?case
  proof
    assume "py_in sub (c # cs)"
    then consider "py_startswith (c # cs) sub" | "py_in sub cs" by auto
    then show "\<exists>p q. c # cs = p @ sub @ q"
    proof cases
      case 1
      then obtain q where "c # cs = sub @ q" by (auto simp: py_startswith_iff)
      then have "c # cs = [] @ sub @ q" by simp
      then show ?thesis by blast
    next
      case 2
      then obtain p q where "cs = p @ sub @ q" using Cons.IH by auto
      then have "c # cs = (c # p) @ sub @ q" by simp
      then show ?thesis by blast
    qed
  next
    assume "\<exists>p q. c # cs = p @ sub @ q"
    then obtain p q where pq: "c # cs = p @ sub @ q" by blast
    show "py_in sub (c # cs)"
    proof (cases p)
      case Nil
      with pq have "py_startswith (c # cs) sub" by (auto simp: py_startswith_iff)
      then show ?thesis by simp
    next
      case (Cons a p')
      with pq have "cs = p' @ sub @ q" by simp
      then have "py_in sub cs" using Cons.IH by blast
      then show ?thesis by simp
    qed
  qed
qed

lemma filter_loop_distinct:
  "distinct (map lower u) \<Longrightarrow> seen = lower ` set u \<Longrightarrow>
   distinct (map lower (filter_loop lower text u seen xs))"
proof (induction xs arbitrary: u seen)
  case Nil
  then show ?case by simp
next
  case (Cons a xs)
  show ?case
  proof (cases "a \<noteq> [] \<and> lower a \<notin> seen \<and> \<not> py_in a text \<and> 2 \<le> length a")
    case True
    have "distinct (map lower (u @ [a]))" using True Cons.prems by auto
    moreover have "insert (lower a) seen = lower ` set (u @ [a])" using Cons.prems by auto
    ultimately have "distinct (map lower (filter_loop lower text (u @ [a]) (insert (lower a) seen) xs))"
      by (rule Cons.IH)
    then show ?thesis using True by simp
  next
    case False
    have "distinct (map lower (filter_loop lower text u seen xs))"
      using Cons.prems by (rule Cons.IH)
    then show ?thesis using False by auto
  qed
qed

lemma filter_loop_absent:
  "\<forall>s\<in>set u. \<not> py_in s text \<Longrightarrow> s \<in> set (filter_loop lower text u seen xs) \<Longrightarrow> \<not> py_in s text"
proof (induction xs arbitrary: u seen)
  case Nil
  then show ?case by simp
next
  case (Cons a xs)
  show ?case
  proof (cases "a \<noteq> [] \<and> lower a \<notin> seen \<and> \<not> py_in a text \<and> 2 \<le> length a")
    case True
    have "\<forall>s\<in>set (u @ [a]). \<not> py_in s text" using True Cons.prems(1) by auto
    moreover have "s \<in> set (filter_loop lower text (u @ [a]) (insert (lower a) seen) xs)"
      using True Cons.prems(2) by simp
    ultimately show ?thesis by (rule Cons.IH)
  next
    case False
    then have "s \<in> set (filter_loop lower text u seen xs)" using Cons.prems(2) by auto
    with Cons.prems(1) show ?thesis by (rule Cons.IH)
  qed
qed

lemma returned_generate:
  "returned (generate_predictions lower generator b) = [] \<or>
   (\<exists>c rs. returned (generate_predictions lower generator b) =
      take N_SUGGESTIONS (filter_loop lower b [] {} (collect_loop [] c rs)))"
  by (auto simp: generate_predictions_def nothing_def Let_def split: option.splits sum.splits)

lemma returned_predict:
  "returned (predict lower generator b) = [] \<or>
   (\<exists>c rs. returned (predict lower generator b) =
      take N_SUGGESTIONS (filter_loop lower b [] {} (collect_loop [] c rs)))"
  using returned_generate [of lower generator b] by (simp add: predict_def nothing_def)

text \<open>
  C1. Whatever the buffer and the model, the list returned by \<open>predict\<close> has at most 4
  elements and no two of them are equal after \<open>lower()\<close>.
\<close>

theorem predict_bounded_distinct:
  "length (returned (predict lower generator b)) \<le> 4 \<and>
   distinct (map lower (returned (predict lower generator b)))"
proof -
  consider "returned (predict lower generator b) = []"
    | c rs where "returned (predict lower generator b) =
        take N_SUGGESTIONS (filter_loop lower b [] {} (collect_loop [] c rs))"
    using returned_predict by blast
  then show ?thesis
  proof cases
    case 1
    then show ?thesis by simp
  next
    case 2
    have "distinct (map lower (filter_loop lower b [] {} (collect_loop [] c rs)))"
      by (rule filter_loop_distinct) simp_all
    then have "distinct (take N_SUGGESTIONS (map lower (filter_loop lower b [] {} (collect_loop [] c rs))))"
      by (rule distinct_take)
    then show ?thesis by (simp add: 2 take_map N_SUGGESTIONS_def)
  qed
qed

theorem predict_bounded_distinct_witness:
  "returned (predict lower_ascii
     (Some (echo_model [[0x20, 0x905, 0x91A, 0x94D, 0x91B, 0x93E],
                        [0x20, 0x41, 0x62, 0x20, 0x61, 0x62, 0x20, 0x63, 0x64]]))
     [0x906, 0x91C]) = [[0x905, 0x91A, 0x94D, 0x91B, 0x93E], [0x41, 0x62], [0x63, 0x64]] \<and>
   length (returned (predict lower_ascii
     (Some (echo_model [[0x20, 0x905, 0x91A, 0x94D, 0x91B, 0x93E],
                        [0x20, 0x41, 0x62, 0x20, 0x61, 0x62, 0x20, 0x63, 0x64]]))
     [0x906, 0x91C])) \<le> 4 \<and>
   distinct (map lower_ascii (returned (predict lower_ascii
     (Some (echo_model [[0x20, 0x905, 0x91A, 0x94D, 0x91B, 0x93E],
                        [0x20, 0x41, 0x62, 0x20, 0x61, 0x62, 0x20, 0x63, 0x64]]))
     [0x906, 0x91C])))"
  using predict_bounded_distinct [of lower_ascii
     "Some (echo_model [[0x20, 0x905, 0x91A, 0x94D, 0x91B, 0x93E],
                        [0x20, 0x41, 0x62, 0x20, 0x61, 0x62, 0x20, 0x63, 0x64]])"
     "[0x906, 0x91C]"]
  by (simp add: pipeline_defs char_classes)

text \<open>
  C3. No string returned by \<open>predict\<close> occurs in the buffer as a contiguous run of
  characters.
\<close>

theorem predict_not_in_buffer:
  "s \<in> set (returned (predict lower generator b)) \<Longrightarrow> \<not> (\<exists>p q. b = p @ s @ q)"
proof -
  assume s: "s \<in> set (returned (predict lower generator b))"
  then obtain c rs where "returned (predict lower generator b) =
        take N_SUGGESTIONS (filter_loop lower b [] {} (collect_loop [] c rs))"
    using returned_predict [of lower generator b] by auto
  with s have "s \<in> set (filter_loop lower b [] {} (collect_loop [] c rs))"
    by (auto dest: in_set_takeD)
  then have "\<not> py_in s b" by (rule filter_loop_absent [rotated]) simp
  then show ?thesis by (simp add: py_in_iff)
qed


theorem predict_not_in_buffer_witness:
  "[0x63, 0x64] \<in> set (returned (predict lower_ascii
       (Some (echo_model [[0x20, 0x61, 0x62, 0x20, 0x63, 0x64]]))
       [0x906, 0x91C, 0x20, 0x61, 0x62])) \<and>
   \<not> (\<exists>p q. [0x906, 0x91C, 0x20, 0x61, 0x62] = p @ [0x63, 0x64 :: uchar] @ q)"
proof -
  have h: "[0x63, 0x64] \<in> set (returned (predict lower_ascii
       (Some (echo_model [[0x20, 0x61, 0x62, 0x20, 0x63, 0x64]]))
       [0x906, 0x91C, 0x20, 0x61, 0x62]))"
    by (simp add: pipeline_defs char_classes)
  show ?thesis using h predict_not_in_buffer [OF h] by blast
qed

section \<open>Early exits, failures and empty inputs\<close>

lemma py_strip_empty_iff: "py_strip s = [] \<longleftrightarrow> (\<forall>c\<in>set s. py_isspace c)"
proof
  assume "py_strip s = []"
  then have "\<forall>c\<in>set (dropWhile py_isspace s). py_isspace c" by (simp add: py_strip_def)
  then have "dropWhile py_isspace s = []"
    by (metis dropWhile_eq_Nil_conv dropWhile_idem)
  then show "\<forall>c\<in>set s. py_isspace c" by simp
next
  assume "\<forall>c\<in>set s. py_isspace c"
  then have d: "dropWhile py_isspace s = []" by simp
  show "py_strip s = []" unfolding py_strip_def by (simp only: d rev.simps dropWhile.simps)
qed

lemma py_endswith_single: "py_endswith s [c] \<longleftrightarrow> s \<noteq> [] \<and> last s = c"
proof (cases s rule: rev_cases)
  case Nil
  then show ?thesis by (simp add: py_endswith_def)
next
  case (snoc ys y)
  then show ?thesis by (auto simp: py_endswith_def)
qed

text \<open>
  C4. For a buffer that is empty or all whitespace, and for a buffer whose trimmed form
  ends with danda, full stop, exclamation mark or question mark, \<open>predict\<close> returns
  the empty list and the model is not called (the list of model calls is empty),
  whatever the model is.
\<close>

theorem no_prediction_when_blank_or_ended:
  assumes "(\<forall>c\<in>set b. py_isspace c) \<or>
           (py_strip b \<noteq> [] \<and> last (py_strip b) \<in> {0x964, 0x2E, 0x21, 0x3F})"
  shows "returned (predict lower generator b) = [] \<and>
         model_calls (predict lower generator b) = []"
proof -
  have "\<not> should_predict b"
    using assms
    by (auto simp: should_predict_def py_endswith_any_def py_endswith_single
        py_strip_empty_iff [symmetric])
  then show ?thesis by (simp add: predict_def nothing_def)
qed

theorem no_prediction_when_blank_or_ended_witness:
  "((\<forall>c\<in>set [0x906, 0x91C, 0x964, 0x20]. py_isspace c) \<or>
      (py_strip [0x906, 0x91C, 0x964, 0x20] \<noteq> [] \<and>
       last (py_strip [0x906, 0x91C, 0x964, 0x20]) \<in> {0x964, 0x2E, 0x21, 0x3F})) \<and>
   returned (predict lower_ascii (Some (failing_model ())) [0x906, 0x91C, 0x964, 0x20]) = [] \<and>
   model_calls (predict lower_ascii (Some (failing_model ())) [0x906, 0x91C, 0x964, 0x20]) = []"
proof -
  have h: "(\<forall>c\<in>set [0x906, 0x91C, 0x964, 0x20]. py_isspace c) \<or>
      (py_strip [0x906, 0x91C, 0x964, 0x20] \<noteq> [] \<and>
       last (py_strip [0x906, 0x91C, 0x964, 0x20]) \<in> {0x964, 0x2E, 0x21, 0x3F})"
    by (simp add: py_strip_def py_isspace_def)
  show ?thesis
    using h no_prediction_when_blank_or_ended [OF h, of lower_ascii "Some (failing_model ())"]
    by blast
qed

text \<open>
  C8. When the run calls the model and the model raises on that call, \<open>predict\<close>
  returns the empty list and reports exactly that one exception with \<open>st.error\<close>;
  the run ends with a value, nothing is raised to the caller.
\<close>

theorem generation_failure_reported_once:
  assumes "model_calls (predict lower (Some g) b) = [c]" and "g c = Inl e"
  shows "returned (predict lower (Some g) b) = [] \<and> st_errors (predict lower (Some g) b) = [e]"
  using assms
  by (auto simp: predict_def generate_predictions_def nothing_def Let_def
      split: if_splits sum.splits)

theorem generation_failure_reported_once_witness:
  "model_calls (predict lower_ascii (Some (failing_model (7::nat))) [0x906, 0x91C]) = [[0x906, 0x91C]] \<and>
   failing_model (7::nat) [0x906, 0x91C] = Inl 7 \<and>
   returned (predict lower_ascii (Some (failing_model (7::nat))) [0x906, 0x91C]) = [] \<and>
   st_errors (predict lower_ascii (Some (failing_model (7::nat))) [0x906, 0x91C]) = [7]"
proof -
  have h1: "model_calls (predict lower_ascii (Some (failing_model (7::nat))) [0x906, 0x91C]) = [[0x906, 0x91C]]"
    by (simp add: pipeline_defs char_classes)
  have h2: "failing_model (7::nat) [0x906, 0x91C] = Inl 7"
    by (simp add: failing_model_def)
  show ?thesis using h1 h2 generation_failure_reported_once [OF h1 h2] by blast
qed



section \<open>The context sent to the model\<close>







section \<open>The candidate list before the final filter\<close>

lemma collect_loop_concat:
  "collect_loop acc context results =
     acc @ concat (map (\<lambda>r. extract_suggestions r context) results)"
  by (induction results arbitrary: acc) simp_all

lemma extract_loop_snoc:
  "extract_loop acc (ws @ [w]) =
     (if clean_suggestion w \<noteq> [] \<and> clean_suggestion w \<notin> set (extract_loop acc ws)
      then extract_loop acc ws @ [clean_suggestion w] else extract_loop acc ws)"
  by (induction ws arbitrary: acc) (simp_all add: Let_def)

lemma first_occurrences_snoc:
  "first_occurrences (xs @ [x]) =
     (if x \<in> set (first_occurrences xs) then first_occurrences xs else first_occurrences xs @ [x])"
  by (simp add: first_occurrences_def)

lemma extract_loop_first_occurrences:
  "extract_loop [] ws = first_occurrences (filter (\<lambda>t. t \<noteq> []) (map clean_suggestion ws))"
proof (induction ws rule: rev_induct)
  case Nil
  then show ?case by (simp add: first_occurrences_def)
next
  case (snoc w ws)
  then show ?case by (simp add: extract_loop_snoc first_occurrences_snoc)
qed

lemma extract_suggestions_char:
  "extract_suggestions g orig = take 4 (first_occurrences (spec_cleaned_tokens orig g))"
proof (cases "length g \<le> length orig")
  case True
  then show ?thesis
    by (simp add: extract_suggestions_def spec_cleaned_tokens_def first_occurrences_def)
next
  case False
  then have g: "g \<noteq> []" by auto
  show ?thesis
  proof (cases "py_strip (drop (length orig) g) = []")
    case True
    then show ?thesis using False g
      by (simp add: extract_suggestions_def spec_cleaned_tokens_def first_occurrences_def
          py_split_def)
  next
    case nonempty: False
    then show ?thesis using False g
      by (simp add: extract_suggestions_def spec_cleaned_tokens_def
          extract_loop_first_occurrences N_SUGGESTIONS_def)
  qed
qed

text \<open>
  C7, as stated, fails: two continuations that both produce the token \<open>ab\<close> give the
  candidate list \<open>[ab, ab]\<close>, where the specification's wording gives \<open>[ab]\<close>.
\<close>

theorem candidates_not_deduplicated_counterexample:
  "collect_loop [] [0x78] [[0x78, 0x20, 0x61, 0x62], [0x78, 0x20, 0x61, 0x62]] \<noteq>
   spec_candidates lower_ascii [0x78] [[0x78, 0x20, 0x61, 0x62], [0x78, 0x20, 0x61, 0x62]]"
  by (simp add: spec_candidates_def spec_cleaned_tokens_def pipeline_defs char_classes)

text \<open>
  C7, amended. The candidate list handed to the final filter is the concatenation, in
  the order of the continuations, of one list per continuation: the cleaned tokens of
  that continuation in the order of their first occurrence, exact repetitions within the
  continuation removed, cut to the first 4. Nothing is compared across continuations and
  nothing is compared up to case at this stage.
\<close>

theorem candidates_per_continuation:
  "collect_loop [] context results =
     concat (map (\<lambda>r. take 4 (first_occurrences (spec_cleaned_tokens context r))) results)"
  by (simp add: collect_loop_concat extract_suggestions_char)

theorem candidates_per_continuation_witness:
  "collect_loop [] [0x78] [[0x78, 0x20, 0x41, 0x62, 0x20, 0x61, 0x62, 0x20, 0x41, 0x62],
                           [0x78, 0x20, 0x61, 0x62]] =
     [[0x41, 0x62], [0x61, 0x62], [0x61, 0x62]]"
  using candidates_per_continuation [of "[0x78]"
     "[[0x78, 0x20, 0x41, 0x62, 0x20, 0x61, 0x62, 0x20, 0x41, 0x62], [0x78, 0x20, 0x61, 0x62]]"]
  by (simp add: spec_cleaned_tokens_def first_occurrences_def pipeline_defs char_classes)

section \<open>What a returned suggestion looks like\<close>

lemma clean_suggestion_shape:
  "clean_suggestion w \<noteq> [] \<Longrightarrow>
   2 \<le> length (clean_suggestion w) \<and> list_ex letter_class (clean_suggestion w)"
  by (auto simp: clean_suggestion_def Let_def split: if_splits)

lemma extract_loop_elements:
  "s \<in> set (extract_loop acc ws) \<Longrightarrow> s \<in> set acc \<or> (s \<noteq> [] \<and> (\<exists>w. s = clean_suggestion w))"
proof (induction ws arbitrary: acc)
  case Nil
  then show ?case by simp
next
  case (Cons w ws)
  show ?case
  proof (cases "clean_suggestion w \<noteq> [] \<and> clean_suggestion w \<notin> set acc")
    case True
    then have "s \<in> set (extract_loop (acc @ [clean_suggestion w]) ws)"
      using Cons.prems by (simp add: Let_def)
    then have "s \<in> set (acc @ [clean_suggestion w]) \<or> (s \<noteq> [] \<and> (\<exists>w. s = clean_suggestion w))"
      by (rule Cons.IH)
    then show ?thesis using True by auto
  next
    case False
    then have "s \<in> set (extract_loop acc ws)" using Cons.prems by (auto simp: Let_def)
    then show ?thesis by (rule Cons.IH)
  qed
qed

lemma extract_suggestions_elements:
  "s \<in> set (extract_suggestions g orig) \<Longrightarrow> s \<noteq> [] \<and> (\<exists>w. s = clean_suggestion w)"
  using extract_loop_elements [of s "[]"]
  by (auto simp: extract_suggestions_def Let_def split: if_splits dest!: in_set_takeD)

lemma filter_loop_subset:
  "s \<in> set (filter_loop lower text u seen xs) \<Longrightarrow> s \<in> set u \<or> s \<in> set xs"
proof (induction xs arbitrary: u seen)
  case Nil
  then show ?case by simp
next
  case (Cons a xs)
  show ?case
  proof (cases "a \<noteq> [] \<and> lower a \<notin> seen \<and> \<not> py_in a text \<and> 2 \<le> length a")
    case True
    then have "s \<in> set (filter_loop lower text (u @ [a]) (insert (lower a) seen) xs)"
      using Cons.prems by simp
    then have "s \<in> set (u @ [a]) \<or> s \<in> set xs" by (rule Cons.IH)
    then show ?thesis by auto
  next
    case False
    then have "s \<in> set (filter_loop lower text u seen xs)" using Cons.prems by auto
    then have "s \<in> set u \<or> s \<in> set xs" by (rule Cons.IH)
    then show ?thesis by auto
  qed
qed

text \<open>
  What the code guarantees about every returned suggestion: at least 2 characters, one
  of them in the Devanagari block or a Latin letter.
\<close>

lemma returned_suggestion_shape:
  assumes "s \<in> set (returned (predict lower generator b))"
  shows "2 \<le> length s \<and> (\<exists>c\<in>set s. in_devanagari_block c \<or> latin_letter c)"
proof -
  obtain c rs where "returned (predict lower generator b) =
        take N_SUGGESTIONS (filter_loop lower b [] {} (collect_loop [] c rs))"
    using assms returned_predict [of lower generator b] by auto
  with assms have "s \<in> set (filter_loop lower b [] {} (collect_loop [] c rs))"
    by (auto dest: in_set_takeD)
  then have "s \<in> set (collect_loop [] c rs)" using filter_loop_subset by fastforce
  then obtain r where "s \<in> set (extract_suggestions r c)"
    by (auto simp: collect_loop_concat)
  then obtain w where "s \<noteq> []" "s = clean_suggestion w"
    using extract_suggestions_elements by blast
  then have "2 \<le> length s \<and> list_ex letter_class s"
    using clean_suggestion_shape [of w] by simp
  then show ?thesis by (auto simp: list_ex_iff letter_class_def)
qed

text \<open>
  C2. The letter test of \<open>clean_suggestion\<close> accepts every character of the Devanagari
  block, which holds digits and punctuation as well as letters. With the buffer
  U+0906 U+091C and a continuation whose new part is U+0967 U+0968 (the Devanagari
  digits one and two), \<open>predict\<close> returns that token, which has no letter.
\<close>

theorem devanagari_digits_returned:
  "returned (predict lower_ascii (Some (echo_model [[0x20, 0x967, 0x968]])) [0x906, 0x91C]) =
     [[0x967, 0x968]]"
  by (simp add: pipeline_defs char_classes)

section \<open>Accepting a suggestion\<close>

lemma accept_actual:
  "accept b s = (if py_strip b = [] then s else py_strip b @ [0x20] @ s)"
proof (cases "py_strip b = []")
  case True
  then show ?thesis by (simp add: accept_def)
next
  case False
  then have "\<not> py_isspace (last (py_strip b))"
    unfolding py_strip_def by (rule both_ends_stripped)
  then have "last (py_strip b) \<noteq> 0x20" by (auto simp: py_isspace_def)
  then have "\<not> py_endswith (py_strip b) [0x20]" by (simp add: py_endswith_single)
  then show ?thesis using False by (simp add: accept_def)
qed

text \<open>
  C5. The handler tests the trimmed buffer for a final space, so its second branch is
  never taken: a buffer ending in two spaces gives the trimmed buffer, one space and the
  suggestion, not the buffer followed by the suggestion.
\<close>

theorem accept_two_trailing_spaces:
  "accept [0x906, 0x91C, 0x20, 0x20] [0x905, 0x91A, 0x94D, 0x91B, 0x93E] =
     [0x906, 0x91C, 0x20, 0x905, 0x91A, 0x94D, 0x91B, 0x93E] \<and>
   accept [0x906, 0x91C, 0x20, 0x20] [0x905, 0x91A, 0x94D, 0x91B, 0x93E] \<noteq>
     [0x906, 0x91C, 0x20, 0x20] @ [0x905, 0x91A, 0x94D, 0x91B, 0x93E]"
  by (simp add: accept_def py_strip_def py_endswith_def py_isspace_def)

end
